theory Spec2Isabelle
  imports Main "HOL-Library.Word"
begin

section \<open>Values exchanged with the daemon\<close>

text \<open>
  The daemon is spoken to in JSON. A parsed response is a value of the following type;
  an object keeps its members in the order of the text, and a later member with the same
  key overrides an earlier one, as Python's parser does. Numbers with a fraction are left
  out: the source only compares an error code with the integer -28.
\<close>

datatype json =
    JNull
  | JBool bool
  | JInt int
  | JStr string
  | JList "json list"
  | JObj "(string \<times> json) list"

text \<open>The exceptions the modelled code can raise.\<close>

datatype exn =
    AttributeError
  | KeyError
  | TypeError
  | ZeroDivisionError

text \<open>Python's truth value of a parsed value, as \<open>any(errs)\<close> and \<open>if not err\<close> test it.\<close>

fun truthy :: "json \<Rightarrow> bool" where
  "truthy JNull = False"
| "truthy (JBool b) = b"
| "truthy (JInt n) = (n \<noteq> 0)"
| "truthy (JStr s) = (s \<noteq> [])"
| "truthy (JList xs) = (xs \<noteq> [])"
| "truthy (JObj kvs) = (kvs \<noteq> [])"

text \<open>\<open>d[k]\<close> with a string key: only a dict has it, and a missing key raises.\<close>

fun subscript :: "json \<Rightarrow> string \<Rightarrow> exn + json" where
  "subscript (JObj kvs) k =
     (case map_of (rev kvs) k of None \<Rightarrow> Inl KeyError | Some v \<Rightarrow> Inr v)"
| "subscript _ k = Inl TypeError"

text \<open>\<open>e.get(k)\<close>: only a dict has the method; a missing key gives \<open>None\<close>.\<close>

fun dict_get :: "json \<Rightarrow> string \<Rightarrow> exn + json" where
  "dict_get (JObj kvs) k =
     (case map_of (rev kvs) k of None \<Rightarrow> Inr JNull | Some v \<Rightarrow> Inr v)"
| "dict_get _ k = Inl AttributeError"

text \<open>
  What \<open>for x in v\<close> runs over: the elements of a list, the keys of a dict (each once,
  in the order of first appearance), the characters of a string; nothing else iterates.
\<close>

fun elements :: "json \<Rightarrow> exn + json list" where
  "elements (JList xs) = Inr xs"
| "elements (JObj kvs) = Inr (map JStr (rev (remdups (rev (map fst kvs)))))"
| "elements (JStr s) = Inr (map (\<lambda>c. JStr [c]) s)"
| "elements _ = Inl TypeError"

text \<open>The comprehension \<open>[d[k] for d in ds]\<close>: the first failing subscript raises.\<close>

fun collect :: "string \<Rightarrow> json list \<Rightarrow> exn + json list" where
  "collect k [] = Inr []"
| "collect k (d # ds) =
     (case subscript d k of
        Inl e \<Rightarrow> Inl e
      | Inr v \<Rightarrow> (case collect k ds of Inl e \<Rightarrow> Inl e | Inr vs \<Rightarrow> Inr (v # vs)))"

section \<open>The transport: \<open>RPC.daemon\<close>\<close>

text \<open>
  One HTTP attempt either yields the parsed response or fails with an exception that
  \<open>except Exception\<close> catches. The environment is a function from the payload and the
  number of the attempt to its outcome. The state threaded through the calls is the
  number of attempts made so far and the time units slept so far.
\<close>

datatype attempt = Response json | Failure string

type_synonym transport = "json \<Rightarrow> nat \<Rightarrow> attempt"

type_synonym net = "nat \<times> nat"

partial_function (option) daemon :: "transport \<Rightarrow> json \<Rightarrow> net \<Rightarrow> (json \<times> net) option" where
  "daemon post payload st =
     (case post payload (fst st) of
        Response r \<Rightarrow> Some (r, (Suc (fst st), snd st))
      | Failure e \<Rightarrow> daemon post payload (Suc (fst st), snd st + 1))"

section \<open>The batch call: \<open>RPC.rpc_multi\<close>\<close>

text \<open>What one pass of the retry loop decides: hand back a value or sleep and go round.\<close>

datatype 'a verdict = Return 'a | Retry nat

text \<open>
  The \<open>for err in errs\<close> loop with its \<open>else\<close> branch: the seconds to sleep. The loop
  calls \<open>err.get\<close> on each element in order and stops at the first code -28.
\<close>

fun backoff :: "json list \<Rightarrow> exn + nat" where
  "backoff [] = Inr 0"
| "backoff (err # errs) =
     (case dict_get err ''code'' of
        Inl e \<Rightarrow> Inl e
      | Inr c \<Rightarrow> if c = JInt (- 28) then Inr 10 else backoff errs)"

definition rpc_multi_pass :: "json \<Rightarrow> exn + json list verdict" where
  "rpc_multi_pass dresults =
     (case elements dresults of
        Inl e \<Rightarrow> Inl e
      | Inr ds \<Rightarrow>
          (case collect ''error'' ds of
             Inl e \<Rightarrow> Inl e
           | Inr errs \<Rightarrow>
               if \<not> list_ex truthy errs
               then (case collect ''result'' ds of
                       Inl e \<Rightarrow> Inl e
                     | Inr rs \<Rightarrow> Inr (Return rs))
               else (case backoff errs of
                       Inl e \<Rightarrow> Inl e
                     | Inr secs \<Rightarrow> Inr (Retry secs))))"

definition payload_multi :: "string \<Rightarrow> json list \<Rightarrow> json" where
  "payload_multi method param_lists =
     JList (map (\<lambda>p. JObj [(''method'', JStr method), (''params'', p)]) param_lists)"

partial_function (option) rpc_multi ::
  "transport \<Rightarrow> string \<Rightarrow> json list \<Rightarrow> net \<Rightarrow> ((exn + json list) \<times> net) option" where
  "rpc_multi post method param_lists st =
     (case daemon post (payload_multi method param_lists) st of
        None \<Rightarrow> None
      | Some (dresults, st') \<Rightarrow>
          (case rpc_multi_pass dresults of
             Inl e \<Rightarrow> Some (Inl e, st')
           | Inr (Return rs) \<Rightarrow> Some (Inr rs, st')
           | Inr (Retry secs) \<Rightarrow>
               rpc_multi post method param_lists (fst st', snd st' + secs)))"

text \<open>The single call, \<open>RPC.rpc_single\<close>, whose loop tests \<open>not err\<close> before \<open>err.get\<close>.\<close>

definition rpc_single_pass :: "json \<Rightarrow> exn + json verdict" where
  "rpc_single_pass dresult =
     (case subscript dresult ''error'' of
        Inl e \<Rightarrow> Inl e
      | Inr err \<Rightarrow>
          if \<not> truthy err
          then (case subscript dresult ''result'' of
                  Inl e \<Rightarrow> Inl e
                | Inr r \<Rightarrow> Inr (Return r))
          else (case dict_get err ''code'' of
                  Inl e \<Rightarrow> Inl e
                | Inr c \<Rightarrow> Inr (Retry (if c = JInt (- 28) then 10 else 0))))"

section \<open>The block cache: \<open>BlockCache\<close>\<close>

text \<open>
  A block is the byte string decoded from the daemon's hexadecimal answer; the cache only
  takes its length. The height is not a field of the source's object: it is the place in
  the chain of the block the daemon served, kept beside the bytes so that the order of
  the buffer can be stated.
\<close>

record block =
  height :: int
  raw :: "8 word list"

text \<open>The calls made on the two collaborators, in the order they are made.\<close>

datatype rpc_call =
    Getblockcount
  | Getblockhash "int list"
  | Getblock "string list"

datatype db_call =
    Process_block block
  | Flush

text \<open>
  Where each of the two tasks is suspended. The producer is \<open>catch_up\<close> with
  \<open>maybe_prefill\<close> inside it; while it waits for a batch it holds its local \<open>count\<close>.
  The consumer is \<open>process_cache\<close>.
\<close>

datatype producer_at =
    P_start
  | P_getblockcount
  | P_getblockhash int
  | P_getblock int
  | P_sleep
  | P_done
  | P_raised exn

datatype consumer_at =
    C_start
  | C_sleep1
  | C_sleep0
  | C_done

record state =
  stop :: bool
  cache_limit :: int
  daemon_height :: int
  fetched_height :: int
  blocks :: "block list"
  recent_sizes :: "int list"
  ave_size :: int
  producer :: producer_at
  consumer :: consumer_at
  rpc_calls :: "rpc_call list"
  db_calls :: "db_call list"

text \<open>\<open>BlockCache.__init__\<close>, with both tasks created and not yet run.\<close>

definition init :: "int \<Rightarrow> state" where
  "init db_height =
     \<lparr>stop = False, cache_limit = 10, daemon_height = 0, fetched_height = db_height,
      blocks = [], recent_sizes = [], ave_size = 0,
      producer = P_start, consumer = C_start, rpc_calls = [], db_calls = []\<rparr>"

definition on_signal :: "state \<Rightarrow> state" where
  "on_signal s = s\<lparr>blocks := [], stop := True\<rparr>"

definition block_len :: "block \<Rightarrow> int" where
  "block_len b = int (length (raw b))"

definition cache_used :: "state \<Rightarrow> int" where
  "cache_used s = sum_list (map block_len (blocks s))"

definition prefill_count :: "state \<Rightarrow> int \<Rightarrow> int" where
  "prefill_count s room =
     (let count = (if ave_size s \<noteq> 0 then room div ave_size s else 0)
      in max count 10)"

text \<open>
  Lines 144 to 149 of \<open>maybe_prefill\<close>: the window takes the new sizes, keeps its last
  50 entries, and the average is recomputed; an empty window makes the division raise.
\<close>

definition track_sizes :: "int list \<Rightarrow> state \<Rightarrow> exn + state" where
  "track_sizes sizes s =
     (let rs = recent_sizes s @ sizes;
          excess = int (length rs) - 50;
          rs' = (if excess > 0 then drop (nat excess) rs else rs)
      in if length rs' = 0 then Inl ZeroDivisionError
         else Inr (s\<lparr>recent_sizes := rs', ave_size := sum_list rs' div int (length rs')\<rparr>))"

text \<open>The tracker fed with the batches of successive rounds; a raise ends the run.\<close>

fun feed :: "int list list \<Rightarrow> state \<Rightarrow> exn + state" where
  "feed [] s = Inr s"
| "feed (sizes # rest) s =
     (case track_sizes sizes s of Inl e \<Rightarrow> Inl e | Inr s' \<Rightarrow> feed rest s')"

text \<open>
  The head of the loop of \<open>maybe_prefill\<close>, lines 109 to 117, up to the first suspension:
  stopped, the producer is done; over the limit, \<open>maybe_prefill\<close> returns True and
  \<open>catch_up\<close> sleeps one unit; otherwise the block count is asked for.
\<close>

definition loop_head :: "state \<Rightarrow> state" where
  "loop_head s =
     (if stop s then s\<lparr>producer := P_done\<rparr>
      else if cache_used s > cache_limit s * 1024 * 1024 then s\<lparr>producer := P_sleep\<rparr>
      else s\<lparr>producer := P_getblockcount, rpc_calls := rpc_calls s @ [Getblockcount]\<rparr>)"

text \<open>Lines 117 to 125: the block count has arrived.\<close>

definition got_blockcount :: "int \<Rightarrow> state \<Rightarrow> state" where
  "got_blockcount n s =
     (let s1 = s\<lparr>daemon_height := n\<rparr>;
          max_count = min (daemon_height s1 - fetched_height s1) 4000;
          count = min max_count (prefill_count s1 (cache_limit s1 * 1024 * 1024))
      in if count = 0 \<or> stop s1 then s1\<lparr>producer := P_done\<rparr>
         else (let first = fetched_height s1 + 1
               in s1\<lparr>producer := P_getblockhash count,
                      rpc_calls := rpc_calls s1 @ [Getblockhash [first..first + count - 1]]\<rparr>))"

text \<open>Lines 125 to 132: the hashes have arrived.\<close>

definition got_hashes :: "string list \<Rightarrow> int \<Rightarrow> state \<Rightarrow> state" where
  "got_hashes hashes count s =
     (if stop s then s\<lparr>producer := P_done\<rparr>
      else s\<lparr>producer := P_getblock count, rpc_calls := rpc_calls s @ [Getblock hashes]\<rparr>)"

text \<open>
  Lines 132 to 149 and round again to the head of the loop, with no suspension between:
  the blocks have arrived.
\<close>

definition got_blocks :: "block list \<Rightarrow> int \<Rightarrow> state \<Rightarrow> state" where
  "got_blocks bs count s =
     (let s1 = s\<lparr>fetched_height := fetched_height s + count\<rparr>
      in if stop s1 then s1\<lparr>producer := P_done\<rparr>
         else (let s2 = s1\<lparr>blocks := rev bs @ blocks s1\<rparr>
               in case track_sizes (map block_len bs) s2 of
                    Inl e \<Rightarrow> s2\<lparr>producer := P_raised e\<rparr>
                  | Inr s3 \<Rightarrow> loop_head s3))"

text \<open>
  One resumption of \<open>process_cache\<close>. After either sleep the inner loop tests the
  buffer: a block is popped from the end and handed over, or the outer test of the flag
  decides between another sleep and the flush.
\<close>

definition drain :: "state \<Rightarrow> state" where
  "drain s =
     (if blocks s \<noteq> []
      then s\<lparr>blocks := butlast (blocks s),
             db_calls := db_calls s @ [Process_block (last (blocks s))],
             consumer := C_sleep0\<rparr>
      else if stop s then s\<lparr>db_calls := db_calls s @ [Flush], consumer := C_done\<rparr>
      else s\<lparr>consumer := C_sleep1\<rparr>)"

definition process_cache :: "state \<Rightarrow> state" where
  "process_cache s =
     (case consumer s of
        C_start \<Rightarrow>
          if stop s then s\<lparr>db_calls := db_calls s @ [Flush], consumer := C_done\<rparr>
          else s\<lparr>consumer := C_sleep1\<rparr>
      | C_sleep1 \<Rightarrow> drain s
      | C_sleep0 \<Rightarrow> drain s
      | C_done \<Rightarrow> s)"

text \<open>
  What the event loop can run next: the signal handler, the consumer, the producer
  waking from its start or from its sleep, or the answer to the producer's pending call
  (a value of the type the interface gives, or an exception out of the client). An
  event that does not fit where the producer waits changes nothing.
\<close>

datatype event =
    Signal
  | Consumer
  | Producer
  | Blockcount int
  | Hashes "string list"
  | Blocks "block list"
  | Raises exn

fun step :: "event \<Rightarrow> state \<Rightarrow> state" where
  "step Signal s = on_signal s"
| "step Consumer s = process_cache s"
| "step Producer s =
     (case producer s of P_start \<Rightarrow> loop_head s | P_sleep \<Rightarrow> loop_head s | _ \<Rightarrow> s)"
| "step (Blockcount n) s =
     (case producer s of P_getblockcount \<Rightarrow> got_blockcount n s | _ \<Rightarrow> s)"
| "step (Hashes hs) s =
     (case producer s of P_getblockhash count \<Rightarrow> got_hashes hs count s | _ \<Rightarrow> s)"
| "step (Blocks bs) s =
     (case producer s of P_getblock count \<Rightarrow> got_blocks bs count s | _ \<Rightarrow> s)"
| "step (Raises e) s =
     (case producer s of
        P_getblockcount \<Rightarrow> s\<lparr>producer := P_raised e\<rparr>
      | P_getblockhash count \<Rightarrow> s\<lparr>producer := P_raised e\<rparr>
      | P_getblock count \<Rightarrow> s\<lparr>producer := P_raised e\<rparr>
      | _ \<Rightarrow> s)"

definition run :: "event list \<Rightarrow> state \<Rightarrow> state" where
  "run evs s = fold step evs s"

section \<open>Notions used to state the properties\<close>

text \<open>An attempt that failed, and so is retried.\<close>

definition fails :: "attempt \<Rightarrow> bool" where
  "fails a = (case a of Response r \<Rightarrow> False | Failure e \<Rightarrow> True)"

text \<open>The last \<open>n\<close> entries of a list, all of it when it is shorter.\<close>

definition lastn :: "nat \<Rightarrow> 'a list \<Rightarrow> 'a list" where
  "lastn n xs = drop (length xs - n) xs"

text \<open>Two elements of a batch response: a success, and the warm-up error of code -28.\<close>

definition ok :: "string \<Rightarrow> json" where
  "ok r = JObj [(''result'', JStr r), (''error'', JNull)]"

definition warming_up :: json where
  "warming_up =
     JObj [(''result'', JNull),
           (''error'', JObj [(''code'', JInt (- 28)), (''message'', JStr ''Loading block index...'')])]"

text \<open>A block of the given height and length, for the examples.\<close>

definition blk :: "int \<Rightarrow> nat \<Rightarrow> block" where
  "blk h n = \<lparr>height = h, raw = replicate n 0\<rparr>"

text \<open>The heights of the buffer from head to tail, and of the blocks handed downstream.\<close>

definition heights :: "state \<Rightarrow> int list" where
  "heights s = map height (blocks s)"

fun processed :: "db_call list \<Rightarrow> int list" where
  "processed [] = []"
| "processed (Process_block b # cs) = height b # processed cs"
| "processed (Flush # cs) = processed cs"

text \<open>Strictly descending with no gap: each element is its predecessor minus one.\<close>

fun descending :: "int list \<Rightarrow> bool" where
  "descending [] = True"
| "descending [x] = True"
| "descending (x # y # zs) = (y = x - 1 \<and> descending (y # zs))"

text \<open>
  The daemon answers a pending batch faithfully when it returns one hash per height asked
  for, and for those hashes the blocks of exactly these heights in the same order.
\<close>

definition answers :: "event \<Rightarrow> state \<Rightarrow> bool" where
  "answers e s =
     (case e of
        Hashes hs \<Rightarrow>
          (case producer s of
             P_getblockhash count \<Rightarrow>
               length hs = length [fetched_height s + 1..fetched_height s + count]
           | _ \<Rightarrow> True)
      | Blocks bs \<Rightarrow>
          (case producer s of
             P_getblock count \<Rightarrow>
               map height bs = [fetched_height s + 1..fetched_height s + count]
           | _ \<Rightarrow> True)
      | _ \<Rightarrow> True)"

fun faithful :: "event list \<Rightarrow> state \<Rightarrow> bool" where
  "faithful [] s = True"
| "faithful (e # evs) s = (answers e s \<and> faithful evs (step e s))"

text \<open>
  The batch that an event merges into the buffer, if it does, and the batch merged last
  along a run (empty when there was none).
\<close>

definition merging :: "event \<Rightarrow> state \<Rightarrow> block list option" where
  "merging e s =
     (case e of
        Blocks bs \<Rightarrow>
          (case producer s of
             P_getblock count \<Rightarrow> if stop s then None else Some bs
           | _ \<Rightarrow> None)
      | _ \<Rightarrow> None)"

definition track :: "event \<Rightarrow> state \<times> block list \<Rightarrow> state \<times> block list" where
  "track e p = (step e (fst p), case merging e (fst p) of Some bs \<Rightarrow> bs | None \<Rightarrow> snd p)"

definition last_merged :: "event list \<Rightarrow> state \<Rightarrow> block list" where
  "last_merged evs s = snd (fold track evs (s, []))"

text \<open>
  The count of section 4.3, step 4, in the words of the specification: the room given to
  \<open>prefill_count\<close> is the byte limit less the occupancy of the buffer.
\<close>

definition spec_count :: "int \<Rightarrow> state \<Rightarrow> int" where
  "spec_count n s =
     min (n - fetched_height s)
       (min 4000 (prefill_count s (cache_limit s * 1024 * 1024 - cache_used s)))"

text \<open>
  What holds of every state the cache reaches, as to shutdown: once stopped the buffer is
  empty, and the flush has been called exactly when the consumer is done, once and last.
\<close>

definition shut :: "state \<Rightarrow> bool" where
  "shut s = ((stop s \<longrightarrow> blocks s = []) \<and>
     (consumer s = C_done \<longrightarrow> stop s \<and> count_list (db_calls s) Flush = 1 \<and> db_calls s \<noteq> [] \<and> last (db_calls s) = Flush) \<and>
     (consumer s \<noteq> C_done \<longrightarrow> count_list (db_calls s) Flush = 0))"

text \<open>
  The producer has passed the test of the limit and waits for the daemon; and the bound on
  the occupancy, kept beside the batch merged last.
\<close>

definition in_flight :: "state \<Rightarrow> bool" where
  "in_flight s = (case producer s of P_getblockcount \<Rightarrow> True | P_getblockhash c \<Rightarrow> True | P_getblock c \<Rightarrow> True | _ \<Rightarrow> False)"

definition bounded :: "state \<times> block list \<Rightarrow> bool" where
  "bounded p = (cache_limit (fst p) = 10 \<and>
     (in_flight (fst p) \<longrightarrow> cache_used (fst p) \<le> 10 * 1024 * 1024) \<and>
     cache_used (fst p) \<le> 10 * 1024 * 1024 + sum_list (map block_len (snd p)))"

section \<open>Properties of the transport and of the batch call\<close>

lemma daemon_returns:
  "post payload (n + k) = Response r \<Longrightarrow> (\<And>j. j < k \<Longrightarrow> fails (post payload (n + j)))
   \<Longrightarrow> daemon post payload (n, t) = Some (r, (Suc (n + k), t + k))"
proof (induction k arbitrary: n t)
  case 0
  then show ?case by (subst daemon.simps) simp
next
  case (Suc k)
  have f0: "fails (post payload n)" using Suc.prems(2)[of 0] by simp
  have r: "post payload (Suc n + k) = Response r" using Suc.prems(1) by simp
  have fs: "\<And>j. j < k \<Longrightarrow> fails (post payload (Suc n + j))"
    using Suc.prems(2) by (metis Suc_less_eq add_Suc_shift)
  have "daemon post payload (Suc n, t + 1) = Some (r, (Suc (Suc n + k), t + 1 + k))"
    by (rule Suc.IH[OF r fs])
  with f0 show ?case
    by (subst daemon.simps) (simp add: fails_def split: attempt.splits)
qed

lemma daemon_Some_response:
  assumes a: "daemon post payload st = Some y"
  shows "\<exists>k r. post payload (fst st + k) = Response r"
proof (rule daemon.raw_induct
    [where P = "\<lambda>post payload st y. \<exists>k r. post payload (fst st + k) = Response r", OF _ a])
  fix f p pl s z
  assume IH: "\<And>p pl s z. f p pl s = Some z \<Longrightarrow> \<exists>k r. p pl (fst s + k) = Response r"
    and eq: "(case p pl (fst s) of
        Response r \<Rightarrow> Some (r, (Suc (fst s), snd s))
      | Failure e \<Rightarrow> f p pl (Suc (fst s), snd s + 1)) = Some z"
  show "\<exists>k r. p pl (fst s + k) = Response r"
  proof (cases "p pl (fst s)")
    case (Response r)
    then have "p pl (fst s + 0) = Response r" by simp
    then show ?thesis by blast
  next
    case (Failure e)
    with eq have "f p pl (Suc (fst s), snd s + 1) = Some z" by simp
    from IH[OF this] obtain k r where "p pl (Suc (fst s) + k) = Response r" by auto
    then have "p pl (fst s + Suc k) = Response r" by simp
    then show ?thesis by blast
  qed
qed

lemma daemon_blocks:
  "(\<And>j. fails (post payload (n + j))) \<Longrightarrow> daemon post payload (n, t) = None"
proof (rule ccontr)
  assume a: "\<And>j. fails (post payload (n + j))" and "daemon post payload (n, t) \<noteq> None"
  then obtain y where "daemon post payload (n, t) = Some y" by auto
  from daemon_Some_response[OF this] obtain k r where "post payload (n + k) = Response r" by auto
  with a[of k] show False by (simp add: fails_def)
qed

text \<open>
  C10. From any point of its run, the transport call has exactly two outcomes. Either some
  attempt succeeds: then every earlier attempt failed, was made with the same payload, and
  cost one unit of sleep, and the call returns the response of the first success; or every
  attempt fails and the call never returns. No outcome hands a failure to the caller.
\<close>

theorem daemon_outcomes:
  "(\<exists>k r. post payload (n + k) = Response r \<and> (\<forall>j<k. fails (post payload (n + j)))
       \<and> daemon post payload (n, t) = Some (r, (Suc (n + k), t + k)))
   \<or> ((\<forall>j. fails (post payload (n + j))) \<and> daemon post payload (n, t) = None)"
proof (cases "\<exists>k. \<not> fails (post payload (n + k))")
  case True
  define k where "k = (LEAST k. \<not> fails (post payload (n + k)))"
  have nk: "\<not> fails (post payload (n + k))" unfolding k_def using True by (rule LeastI_ex)
  have lt: "\<And>j. j < k \<Longrightarrow> fails (post payload (n + j))"
    unfolding k_def using not_less_Least by blast
  from nk obtain r where r: "post payload (n + k) = Response r"
    by (cases "post payload (n + k)") (simp_all add: fails_def)
  have "daemon post payload (n, t) = Some (r, (Suc (n + k), t + k))"
    using r lt by (rule daemon_returns)
  with r lt show ?thesis by blast
next
  case False
  then have all: "\<And>j. fails (post payload (n + j))" by blast
  have "daemon post payload (n, t) = None" using all by (rule daemon_blocks)
  with all show ?thesis by blast
qed

theorem daemon_outcomes_witness:
  "daemon (\<lambda>p k. if k < 2 then Failure ''timeout'' else Response (JList [])) (JList []) (0, 0)
     = Some (JList [], (3, 2))"
proof -
  let ?post = "\<lambda>(p::json) (k::nat). if k < 2 then Failure ''timeout'' else Response (JList [])"
  from daemon_outcomes [of ?post "JList []" 0 0]
  consider (ret) k r where "?post (JList []) (0 + k) = Response r"
      "\<forall>j<k. fails (?post (JList []) (0 + j))"
      "daemon ?post (JList []) (0, 0) = Some (r, (Suc (0 + k), 0 + k))"
    | (never) "\<forall>j. fails (?post (JList []) (0 + j))"
    by blast
  then show ?thesis
  proof cases
    case ret
    from ret(1) have k2: "\<not> k < 2" and r: "r = JList []" by (auto split: if_splits)
    have "\<not> 2 < k"
    proof
      assume "2 < k"
      with ret(2) have "fails (?post (JList []) (0 + 2))" by blast
      then show False by (simp add: fails_def)
    qed
    with k2 have "k = 2" by simp
    with ret(3) r show ?thesis by simp
  next
    case never
    then have "fails (?post (JList []) (0 + 2))" by blast
    then show ?thesis by (simp add: fails_def)
  qed
qed

text \<open>
  C1. A batch response in which the first element succeeded and the second carries the
  warm-up code -28. The loop over \<open>errs\<close> calls \<open>get\<close> on the \<open>None\<close> of the element
  that succeeded, so the pass raises AttributeError and \<open>rpc_multi\<close> hands it to its
  caller instead of sleeping 10 units and sending the batch again. With the failed element
  first the loop breaks before it reaches a \<open>None\<close> and the batch is retried after 10
  units. \<open>rpc_single\<close> tests \<open>not err\<close> before it calls \<open>get\<close> and has no such case.
\<close>

theorem rpc_multi_mixed_raises:
  "rpc_multi_pass (JList [ok ''00ab'', warming_up]) = Inl AttributeError \<and>
   rpc_multi (\<lambda>p k. Response (JList [ok ''00ab'', warming_up])) ''getblockhash''
       [JList [JInt 1], JList [JInt 2]] (0, 0) = Some (Inl AttributeError, (1, 0)) \<and>
   rpc_multi_pass (JList [warming_up, ok ''00ab'']) = Inr (Retry 10) \<and>
   rpc_single_pass (ok ''00ab'') = Inr (Return (JStr ''00ab'')) \<and>
   rpc_single_pass warming_up = Inr (Retry 10)"
  by (simp add: rpc_multi.simps daemon.simps rpc_multi_pass_def rpc_single_pass_def
      ok_def warming_up_def)

section \<open>Properties of the batch size and of the size tracker\<close>

text \<open>
  C9. Whatever the room and the average, \<open>prefill_count\<close> returns at least 10. With an
  average that is known (not zero) it returns the larger of 10 and the floor of room
  divided by the average; with an average of zero it returns 10.
\<close>

theorem prefill_count_floor:
  "10 \<le> prefill_count s room \<and>
   (ave_size s \<noteq> 0 \<longrightarrow> prefill_count s room = max 10 (room div ave_size s)) \<and>
   (ave_size s = 0 \<longrightarrow> prefill_count s room = 10)"
  by (simp add: prefill_count_def Let_def max_def)

theorem prefill_count_floor_witness:
  "ave_size ((init 0)\<lparr>ave_size := 3\<rparr>) \<noteq> 0 \<and> prefill_count ((init 0)\<lparr>ave_size := 3\<rparr>) 100 = 33
   \<and> ave_size (init 0) = 0 \<and> prefill_count (init 0) 0 = 10"
  using prefill_count_floor [of "(init 0)\<lparr>ave_size := 3\<rparr>" 100] prefill_count_floor [of "init 0" 0]
  by (simp add: init_def)

lemma lastn_lastn_append: "lastn n (lastn n xs @ ys) = lastn n (xs @ ys)"
  by (cases "length xs \<le> n") (simp_all add: lastn_def add.commute)

lemma trim_lastn:
  "(if int (length rs) - 50 > 0 then drop (nat (int (length rs) - 50)) rs else rs) = lastn 50 rs"
proof -
  have "nat (int (length rs) - 50) = length rs - 50" by arith
  then show ?thesis by (simp add: lastn_def)
qed

lemma lastn_append_long: "n \<le> length ys \<Longrightarrow> lastn n (xs @ ys) = lastn n ys"
  by (simp add: lastn_def)

lemma length_lastn: "length (lastn n xs) = min n (length xs)"
  by (simp add: lastn_def)

lemma track_sizes_Inr:
  "recent_sizes s @ sizes \<noteq> [] \<Longrightarrow>
   track_sizes sizes s =
     Inr (s\<lparr>recent_sizes := lastn 50 (recent_sizes s @ sizes),
            ave_size := sum_list (lastn 50 (recent_sizes s @ sizes))
                          div int (length (lastn 50 (recent_sizes s @ sizes)))\<rparr>)"
proof -
  assume ne: "recent_sizes s @ sizes \<noteq> []"
  then have "0 < length (lastn 50 (recent_sizes s @ sizes))"
    by (simp add: length_lastn)
  then have "lastn 50 (recent_sizes s @ sizes) \<noteq> []" by auto
  then show ?thesis
    unfolding track_sizes_def Let_def trim_lastn by simp
qed

lemma track_sizes_Inl:
  "recent_sizes s @ sizes = [] \<Longrightarrow> track_sizes sizes s = Inl ZeroDivisionError"
  by (simp add: track_sizes_def)

lemma feed_window:
  "recent_sizes s \<noteq> [] \<or> (bs \<noteq> [] \<and> hd bs \<noteq> []) \<or> bs = [] \<Longrightarrow>
   \<exists>s'. feed bs s = Inr s'
     \<and> recent_sizes s' = (if bs = [] then recent_sizes s else lastn 50 (recent_sizes s @ concat bs))
     \<and> (bs \<noteq> [] \<longrightarrow> ave_size s' = sum_list (recent_sizes s') div int (length (recent_sizes s')))"
proof (induction bs arbitrary: s)
  case Nil
  then show ?case by simp
next
  case (Cons b bs)
  from Cons.prems have ne: "recent_sizes s @ b \<noteq> []" by auto
  let ?s1 = "s\<lparr>recent_sizes := lastn 50 (recent_sizes s @ b),
            ave_size := sum_list (lastn 50 (recent_sizes s @ b))
                          div int (length (lastn 50 (recent_sizes s @ b)))\<rparr>"
  have t: "track_sizes b s = Inr ?s1" using ne by (rule track_sizes_Inr)
  have "0 < length (lastn 50 (recent_sizes s @ b))" using ne by (simp add: length_lastn)
  then have ne1: "recent_sizes ?s1 \<noteq> []" by auto
  from Cons.IH[of ?s1] ne1 obtain s' where
    f: "feed bs ?s1 = Inr s'" and
    w: "recent_sizes s' =
          (if bs = [] then recent_sizes ?s1 else lastn 50 (recent_sizes ?s1 @ concat bs))" and
    a: "bs \<noteq> [] \<longrightarrow> ave_size s' = sum_list (recent_sizes s') div int (length (recent_sizes s'))"
    by blast
  have "feed (b # bs) s = Inr s'" using t f by simp
  moreover have "recent_sizes s' = lastn 50 (recent_sizes s @ concat (b # bs))"
    using w by (simp add: lastn_lastn_append)
  moreover have "ave_size s' = sum_list (recent_sizes s') div int (length (recent_sizes s'))"
  proof (cases "bs = []")
    case True
    with f have "s' = ?s1" by simp
    then show ?thesis by simp
  next
    case False
    with a show ?thesis by simp
  qed
  ultimately show ?case by simp
qed

text \<open>
  C8. The tracker is fed the batches of successive rounds, more than 50 sizes in all. The
  feeding goes through when the window is not empty at the start or the first batch is
  not empty (an empty batch on an empty window is the division by zero of C7). Then the
  window holds exactly the last 50 sizes fed, and the average is the floor of their sum
  divided by 50, which for byte lengths is the truncated mean.
\<close>

theorem rolling_average:
  assumes n: "50 < length (concat bs)"
    and first: "recent_sizes s \<noteq> [] \<or> hd bs \<noteq> []"
  shows "\<exists>s'. feed bs s = Inr s'
     \<and> recent_sizes s' = drop (length (concat bs) - 50) (concat bs)
     \<and> length (recent_sizes s') = 50
     \<and> ave_size s' = sum_list (drop (length (concat bs) - 50) (concat bs)) div 50"
proof -
  from n have ne: "bs \<noteq> []" by auto
  with first have "recent_sizes s \<noteq> [] \<or> (bs \<noteq> [] \<and> hd bs \<noteq> []) \<or> bs = []" by blast
  from feed_window[OF this] ne obtain s' where
    f: "feed bs s = Inr s'" and
    w: "recent_sizes s' = lastn 50 (recent_sizes s @ concat bs)" and
    a: "ave_size s' = sum_list (recent_sizes s') div int (length (recent_sizes s'))"
    by auto
  from n have "lastn 50 (recent_sizes s @ concat bs) = lastn 50 (concat bs)"
    by (intro lastn_append_long) simp
  with w have w': "recent_sizes s' = drop (length (concat bs) - 50) (concat bs)"
    by (simp add: lastn_def)
  have l: "length (recent_sizes s') = 50" using n w' by simp
  from f w' l a show ?thesis by simp
qed

theorem rolling_average_witness:
  "50 < length (concat [replicate 30 (7::int), replicate 30 9]) \<and>
   hd [replicate 30 (7::int), replicate 30 9] \<noteq> [] \<and>
   (\<exists>s'. feed [replicate 30 7, replicate 30 9] (init 0) = Inr s'
      \<and> recent_sizes s' = replicate 20 7 @ replicate 30 9
      \<and> ave_size s' = 8)"
  using rolling_average [of "[replicate 30 7, replicate 30 9]" "init 0"]
  by (auto simp: sum_list_replicate)

section \<open>Properties of the block cache\<close>

lemmas ops = run_def init_def loop_head_def got_blockcount_def got_hashes_def got_blocks_def
  track_sizes_def cache_used_def block_len_def prefill_count_def process_cache_def drain_def
  on_signal_def blk_def Let_def

lemma run_Nil: "run [] s = s" by (simp add: run_def)
lemma run_snoc: "run (evs @ [e]) s = step e (run evs s)" by (simp add: run_def)
lemma run_Cons: "run (e # evs) s = run evs (step e s)" by (simp add: run_def)

lemma track_sizes_fields:
  "track_sizes sizes s = Inr s' \<Longrightarrow>
   stop s' = stop s \<and> blocks s' = blocks s \<and> consumer s' = consumer s \<and> db_calls s' = db_calls s
   \<and> fetched_height s' = fetched_height s \<and> cache_limit s' = cache_limit s \<and> producer s' = producer s
   \<and> rpc_calls s' = rpc_calls s \<and> daemon_height s' = daemon_height s"
  by (auto simp: track_sizes_def Let_def split: if_splits)

lemma loop_head_fields:
  "stop (loop_head s) = stop s" "blocks (loop_head s) = blocks s" "consumer (loop_head s) = consumer s"
  "db_calls (loop_head s) = db_calls s" "fetched_height (loop_head s) = fetched_height s"
  "cache_limit (loop_head s) = cache_limit s" "recent_sizes (loop_head s) = recent_sizes s"
  "ave_size (loop_head s) = ave_size s" "daemon_height (loop_head s) = daemon_height s"
  by (simp_all add: loop_head_def)

lemma got_blockcount_fields:
  "stop (got_blockcount n s) = stop s" "blocks (got_blockcount n s) = blocks s"
  "consumer (got_blockcount n s) = consumer s" "db_calls (got_blockcount n s) = db_calls s"
  "fetched_height (got_blockcount n s) = fetched_height s" "cache_limit (got_blockcount n s) = cache_limit s"
  "recent_sizes (got_blockcount n s) = recent_sizes s" "ave_size (got_blockcount n s) = ave_size s"
  by (simp_all add: got_blockcount_def Let_def)

lemma got_hashes_fields:
  "stop (got_hashes hs c s) = stop s" "blocks (got_hashes hs c s) = blocks s"
  "consumer (got_hashes hs c s) = consumer s" "db_calls (got_hashes hs c s) = db_calls s"
  "fetched_height (got_hashes hs c s) = fetched_height s" "cache_limit (got_hashes hs c s) = cache_limit s"
  "recent_sizes (got_hashes hs c s) = recent_sizes s" "ave_size (got_hashes hs c s) = ave_size s"
  by (simp_all add: got_hashes_def)

lemma got_blocks_fields:
  "stop (got_blocks bs c s) = stop s" "consumer (got_blocks bs c s) = consumer s"
  "db_calls (got_blocks bs c s) = db_calls s" "cache_limit (got_blocks bs c s) = cache_limit s"
  "fetched_height (got_blocks bs c s) = fetched_height s + c"
  "blocks (got_blocks bs c s) = (if stop s then blocks s else rev bs @ blocks s)"
  by (auto simp: got_blocks_def Let_def loop_head_fields split: sum.splits dest!: track_sizes_fields)

lemmas fields = loop_head_fields got_blockcount_fields got_hashes_fields got_blocks_fields

lemma step_producer_fields:
  "e \<noteq> Consumer \<Longrightarrow> e \<noteq> Signal \<Longrightarrow>
   stop (step e s) = stop s \<and> consumer (step e s) = consumer s \<and> db_calls (step e s) = db_calls s
   \<and> cache_limit (step e s) = cache_limit s \<and> (stop s \<longrightarrow> blocks (step e s) = blocks s)"
  by (cases e) (auto simp: fields split: producer_at.splits)

lemma shut_step: "shut s \<Longrightarrow> shut (step e s)"
proof (cases "e = Consumer \<or> e = Signal")
  case False
  assume "shut s"
  with step_producer_fields[of e s] False show ?thesis by (simp add: shut_def)
next
  case True
  assume "shut s"
  with True show ?thesis
    by (auto simp: shut_def on_signal_def process_cache_def drain_def split: consumer_at.splits if_splits)
qed

lemma shut_init: "shut (init h)" by (simp add: shut_def init_def)

lemma shut_run: "shut s \<Longrightarrow> shut (run evs s)"
  by (induction evs arbitrary: s) (simp_all add: run_Nil run_Cons shut_step)

text \<open>
  C6. In every state the cache reaches: the signal sets the flag and empties the buffer at
  once; the flush is called at most once, only with the flag set, as the last call on the
  processor, and exactly when the consumer is done, after which the consumer does nothing
  more; with the flag set the next resumption of the consumer leaves its loop and flushes;
  no event but a resumption of the consumer calls the processor; and with the flag set
  the producer is done at its next resumption, whichever call it waited for.
\<close>

theorem shutdown_protocol:
  assumes s: "s = run evs (init h)"
  shows "stop (step Signal s) \<and> blocks (step Signal s) = [] \<and>
    count_list (db_calls s) Flush \<le> 1 \<and>
    (Flush \<in> set (db_calls s) \<longrightarrow> stop s \<and> consumer s = C_done \<and> last (db_calls s) = Flush) \<and>
    (consumer s = C_done \<longrightarrow> count_list (db_calls s) Flush = 1 \<and> step Consumer s = s) \<and>
    (stop s \<and> consumer s \<noteq> C_done \<longrightarrow>
       consumer (step Consumer s) = C_done \<and> db_calls (step Consumer s) = db_calls s @ [Flush]) \<and>
    (e \<noteq> Consumer \<longrightarrow> db_calls (step e s) = db_calls s) \<and>
    (stop s \<and> (producer s = P_start \<or> producer s = P_sleep) \<longrightarrow> producer (step Producer s) = P_done) \<and>
    (stop s \<and> producer s = P_getblockcount \<longrightarrow> producer (step (Blockcount n) s) = P_done) \<and>
    (stop s \<and> producer s = P_getblockhash c \<longrightarrow> producer (step (Hashes hs) s) = P_done) \<and>
    (stop s \<and> producer s = P_getblock c \<longrightarrow> producer (step (Blocks bs) s) = P_done)"
proof -
  have sh: "shut s" unfolding s by (rule shut_run[OF shut_init])
  have 1: "stop (step Signal s) \<and> blocks (step Signal s) = []" by (simp add: on_signal_def)
  have 2: "count_list (db_calls s) Flush \<le> 1" using sh by (cases "consumer s = C_done") (simp_all add: shut_def)
  have 3: "Flush \<in> set (db_calls s) \<longrightarrow> stop s \<and> consumer s = C_done \<and> last (db_calls s) = Flush"
    using sh by (cases "consumer s = C_done") (auto simp: shut_def count_list_0_iff)
  have 4: "consumer s = C_done \<longrightarrow> count_list (db_calls s) Flush = 1 \<and> step Consumer s = s"
    using sh by (simp add: shut_def process_cache_def)
  have 5: "stop s \<and> consumer s \<noteq> C_done \<longrightarrow>
       consumer (step Consumer s) = C_done \<and> db_calls (step Consumer s) = db_calls s @ [Flush]"
    using sh by (auto simp: shut_def process_cache_def drain_def split: consumer_at.splits if_splits)
  have 6: "e \<noteq> Consumer \<longrightarrow> db_calls (step e s) = db_calls s"
    using step_producer_fields[of e s] by (cases "e = Signal") (auto simp: on_signal_def)
  have 7: "stop s \<and> (producer s = P_start \<or> producer s = P_sleep) \<longrightarrow> producer (step Producer s) = P_done"
    by (auto simp: loop_head_def)
  have 8: "stop s \<and> producer s = P_getblockcount \<longrightarrow> producer (step (Blockcount n) s) = P_done"
    by (auto simp: got_blockcount_def Let_def)
  have 9: "stop s \<and> producer s = P_getblockhash c \<longrightarrow> producer (step (Hashes hs) s) = P_done"
    by (auto simp: got_hashes_def)
  have 10: "stop s \<and> producer s = P_getblock c \<longrightarrow> producer (step (Blocks bs) s) = P_done"
    by (auto simp: got_blocks_def Let_def)
  from 1 2 3 4 5 6 7 8 9 10 show ?thesis by blast
qed

theorem shutdown_protocol_witness:
  "stop (run [Consumer, Producer, Signal] (init 0)) \<and>
   consumer (run [Consumer, Producer, Signal] (init 0)) \<noteq> C_done \<and>
   producer (run [Consumer, Producer, Signal] (init 0)) = P_getblockcount \<and>
   db_calls (run [Consumer, Producer, Signal] (init 0)) = [] \<and>
   consumer (step Consumer (run [Consumer, Producer, Signal] (init 0))) = C_done \<and>
   db_calls (step Consumer (run [Consumer, Producer, Signal] (init 0))) = [Flush] \<and>
   producer (step (Blockcount 7) (run [Consumer, Producer, Signal] (init 0))) = P_done \<and>
   db_calls (step (Blockcount 7) (run [Consumer, Producer, Signal] (init 0))) = []"
  using shutdown_protocol [of "run [Consumer, Producer, Signal] (init 0)"
      "[Consumer, Producer, Signal]" 0 "Blockcount 7" 7 0 "[]" "[]"]
  by (simp add: run_def init_def process_cache_def loop_head_def on_signal_def cache_used_def)

lemma bytes_nonneg: "0 \<le> sum_list (map block_len bs)"
  by (induction bs) (simp_all add: block_len_def)

lemma bytes_butlast: "sum_list (map block_len (butlast bs)) \<le> sum_list (map block_len bs)"
  by (induction bs) (simp_all add: block_len_def)

lemma cache_used_process: "cache_used (process_cache s) \<le> cache_used s"
  using bytes_butlast[of "blocks s"]
  by (auto simp: process_cache_def drain_def cache_used_def split: consumer_at.splits)

lemma process_cache_producer: "producer (process_cache s) = producer s" "cache_limit (process_cache s) = cache_limit s"
  by (auto simp: process_cache_def drain_def split: consumer_at.splits)

lemma loop_head_bounded:
  "cache_limit s = 10 \<Longrightarrow> in_flight (loop_head s) \<Longrightarrow> cache_used (loop_head s) \<le> 10 * 1024 * 1024"
  by (auto simp: loop_head_def in_flight_def cache_used_def split: if_splits)

lemma cache_used_loop_head: "cache_used (loop_head s) = cache_used s"
  by (simp add: cache_used_def loop_head_fields)

lemma bounded_track: assumes b: "bounded p" shows "bounded (track e p)"
proof -
  obtain s b0 where p: "p = (s, b0)" by (cases p)
  from b p have cl: "cache_limit s = 10"
    and fl: "in_flight s \<Longrightarrow> cache_used s \<le> 10 * 1024 * 1024"
    and bd: "cache_used s \<le> 10 * 1024 * 1024 + sum_list (map block_len b0)"
    by (simp_all add: bounded_def)
  show ?thesis
  proof (cases e)
    case Signal
    then show ?thesis using cl bytes_nonneg[of b0]
      by (simp add: p track_def merging_def bounded_def on_signal_def cache_used_def in_flight_def)
  next
    case Consumer
    then show ?thesis using cl fl bd cache_used_process[of s]
      by (auto simp: p track_def merging_def bounded_def process_cache_producer in_flight_def)
  next
    case Producer
    then show ?thesis using cl fl bd loop_head_bounded[of s]
      by (auto simp: p track_def merging_def bounded_def cache_used_loop_head loop_head_fields split: producer_at.splits)
  next
    case (Blockcount n)
    then show ?thesis using cl fl bd
      by (auto simp: p track_def merging_def bounded_def got_blockcount_def Let_def cache_used_def in_flight_def split: producer_at.splits)
  next
    case (Hashes hs)
    then show ?thesis using cl fl bd
      by (auto simp: p track_def merging_def bounded_def got_hashes_def Let_def cache_used_def in_flight_def split: producer_at.splits)
  next
    case (Raises x)
    then show ?thesis using cl fl bd
      by (auto simp: p track_def merging_def bounded_def cache_used_def in_flight_def split: producer_at.splits)
  next
    case (Blocks bs)
    show ?thesis
    proof (cases "\<exists>c. producer s = P_getblock c")
      case False
      then have "step e s = s" using Blocks by (cases "producer s") auto
      moreover have "merging e s = None" using False Blocks by (cases "producer s") (auto simp: merging_def)
      ultimately show ?thesis using b p by (simp add: track_def)
    next
      case True
      then obtain c where c: "producer s = P_getblock c" by blast
      then have inf: "cache_used s \<le> 10 * 1024 * 1024" using fl by (simp add: in_flight_def)
      show ?thesis
      proof (cases "stop s")
        case True
        then show ?thesis using Blocks c cl bd
          by (simp add: p track_def merging_def bounded_def got_blocks_def Let_def cache_used_def in_flight_def)
      next
        case False
        let ?s2 = "s\<lparr>fetched_height := fetched_height s + c, blocks := rev bs @ blocks s\<rparr>"
        have u2: "cache_used ?s2 = sum_list (map block_len bs) + cache_used s"
          by (simp add: cache_used_def rev_map[symmetric] sum_list_rev)
        have m: "merging e s = Some bs" using Blocks c False by (simp add: merging_def)
        show ?thesis
        proof (cases "track_sizes (map block_len bs) ?s2")
          case (Inl x)
          then have st: "step e s = ?s2\<lparr>producer := P_raised x\<rparr>"
            using Blocks c False by (simp add: got_blocks_def Let_def)
          show ?thesis using m cl inf u2
            by (simp add: p track_def st bounded_def in_flight_def cache_used_def)
        next
          case (Inr s3)
          then have st: "step e s = loop_head s3"
            using Blocks c False by (simp add: got_blocks_def Let_def)
          from track_sizes_fields[OF Inr] have f3: "blocks s3 = blocks ?s2" "cache_limit s3 = 10"
            using cl by simp_all
          then have u3: "cache_used s3 = sum_list (map block_len bs) + cache_used s"
            using u2 by (simp add: cache_used_def)
          show ?thesis using m inf u3 f3 loop_head_bounded[of s3]
            by (auto simp: p track_def st bounded_def cache_used_loop_head loop_head_fields)
        qed
      qed
    qed
  qed
qed

lemma fst_fold_track: "fst (fold track evs p) = run evs (fst p)"
  by (induction evs arbitrary: p) (simp_all add: run_def track_def)

lemma bounded_fold: "bounded p \<Longrightarrow> bounded (fold track evs p)"
  by (induction evs arbitrary: p) (simp_all add: bounded_track)

text \<open>
  C5. A producer that finds the occupancy above the byte limit returns at once, to sleep
  one unit, and issues no call and merges nothing. In every state the cache reaches, the
  occupancy exceeds the 10 MiB limit by no more than the bytes of the batch merged last.
\<close>

theorem backpressure:
  "(\<not> stop s \<and> cache_limit s * 1024 * 1024 < cache_used s \<longrightarrow>
      producer (loop_head s) = P_sleep \<and> rpc_calls (loop_head s) = rpc_calls s
      \<and> blocks (loop_head s) = blocks s) \<and>
   cache_used (run evs (init h))
     \<le> 10 * 1024 * 1024 + sum_list (map block_len (last_merged evs (init h)))"
proof -
  have "bounded (init h, [])" by (simp add: bounded_def init_def in_flight_def cache_used_def)
  then have "bounded (fold track evs (init h, []))" by (rule bounded_fold)
  then have "cache_used (run evs (init h))
     \<le> 10 * 1024 * 1024 + sum_list (map block_len (last_merged evs (init h)))"
    using fst_fold_track[of evs "(init h, [])"] by (simp add: bounded_def last_merged_def)
  then show ?thesis by (simp add: loop_head_def)
qed

theorem backpressure_witness:
  "\<not> stop ((init 0)\<lparr>blocks := [blk 1 11000000]\<rparr>) \<and>
   cache_limit ((init 0)\<lparr>blocks := [blk 1 11000000]\<rparr>) * 1024 * 1024
     < cache_used ((init 0)\<lparr>blocks := [blk 1 11000000]\<rparr>) \<and>
   producer (loop_head ((init 0)\<lparr>blocks := [blk 1 11000000]\<rparr>)) = P_sleep \<and>
   rpc_calls (loop_head ((init 0)\<lparr>blocks := [blk 1 11000000]\<rparr>)) = [] \<and>
   last_merged [Producer, Blockcount 1, Hashes [''00ab''], Blocks [blk 1 11000000]] (init 0)
     = [blk 1 11000000] \<and>
   cache_used (run [Producer, Blockcount 1, Hashes [''00ab''], Blocks [blk 1 11000000]] (init 0))
     \<le> 10 * 1024 * 1024 + 11000000"
  using backpressure [of "(init 0)\<lparr>blocks := [blk 1 11000000]\<rparr>"
      "[Producer, Blockcount 1, Hashes [''00ab''], Blocks [blk 1 11000000]]" 0]
  by (simp add: ops last_merged_def track_def merging_def)

section \<open>Properties of a fetch round\<close>

text \<open>
  The count as the specification words it, with the room left in the cache, against the
  code: with one block of 900000 bytes in the buffer and an average of 900000, the code
  asks for 11 blocks, the whole limit divided by the average, where the room left gives 10.
\<close>

theorem fetch_count_remaining_room_counterexample:
  "producer (run [Producer, Blockcount 1, Hashes [''00ab''], Blocks [blk 1 900000]] (init 0))
     = P_getblockcount \<and>
   \<not> stop (run [Producer, Blockcount 1, Hashes [''00ab''], Blocks [blk 1 900000]] (init 0)) \<and>
   cache_used (run [Producer, Blockcount 1, Hashes [''00ab''], Blocks [blk 1 900000]] (init 0))
     = 900000 \<and>
   producer (step (Blockcount 100)
       (run [Producer, Blockcount 1, Hashes [''00ab''], Blocks [blk 1 900000]] (init 0)))
     = P_getblockhash 11 \<and>
   spec_count 100 (run [Producer, Blockcount 1, Hashes [''00ab''], Blocks [blk 1 900000]] (init 0))
     = 10"
  by (simp add: ops spec_count_def)

text \<open>
  C3, amended. When the daemon is ahead of \<open>fetched_height\<close> and the flag is clear, the
  round asks for the hashes of \<open>count\<close> consecutive heights from \<open>fetched_height + 1\<close>,
  where \<open>count\<close> is the least of the distance to the tip, 4000, and \<open>prefill_count\<close> of
  the whole byte limit; the occupancy of the buffer plays no part.
\<close>

theorem fetch_count_whole_limit:
  assumes "producer s = P_getblockcount" and "\<not> stop s" and "fetched_height s < n"
  shows "\<exists>count. count = min (min (n - fetched_height s) 4000)
                         (prefill_count s (cache_limit s * 1024 * 1024))
     \<and> 0 < count
     \<and> producer (step (Blockcount n) s) = P_getblockhash count
     \<and> rpc_calls (step (Blockcount n) s)
         = rpc_calls s @ [Getblockhash [fetched_height s + 1..fetched_height s + count]]
     \<and> int (length [fetched_height s + 1..fetched_height s + count]) = count"
proof -
  define c where "c = min (min (n - fetched_height s) 4000)
                         (prefill_count s (cache_limit s * 1024 * 1024))"
  have p: "10 \<le> prefill_count s (cache_limit s * 1024 * 1024)"
    by (simp add: prefill_count_def Let_def)
  have pc: "prefill_count (s\<lparr>daemon_height := n\<rparr>) r = prefill_count s r" for r
    by (simp add: prefill_count_def)
  have pos: "0 < c" using assms(3) p by (simp add: c_def)
  have "got_blockcount n s =
      (if c = 0 \<or> stop s then s\<lparr>daemon_height := n, producer := P_done\<rparr>
       else s\<lparr>daemon_height := n, producer := P_getblockhash c,
        rpc_calls := rpc_calls s @ [Getblockhash [fetched_height s + 1..fetched_height s + 1 + c - 1]]\<rparr>)"
    unfolding got_blockcount_def Let_def pc c_def by simp
  then have "got_blockcount n s = s\<lparr>daemon_height := n, producer := P_getblockhash c,
        rpc_calls := rpc_calls s @ [Getblockhash [fetched_height s + 1..fetched_height s + c]]\<rparr>"
    using pos assms(2) by (simp add: add.commute add.left_commute)
  then have "producer (step (Blockcount n) s) = P_getblockhash c
     \<and> rpc_calls (step (Blockcount n) s)
         = rpc_calls s @ [Getblockhash [fetched_height s + 1..fetched_height s + c]]"
    using assms(1) by simp
  moreover have "int (length [fetched_height s + 1..fetched_height s + c]) = c"
    using pos by simp
  ultimately show ?thesis using pos c_def by blast
qed

theorem fetch_count_whole_limit_witness:
  "producer (run [Producer, Blockcount 1, Hashes [''00ab''], Blocks [blk 1 900000]] (init 0))
     = P_getblockcount \<and>
   \<not> stop (run [Producer, Blockcount 1, Hashes [''00ab''], Blocks [blk 1 900000]] (init 0)) \<and>
   fetched_height (run [Producer, Blockcount 1, Hashes [''00ab''], Blocks [blk 1 900000]] (init 0))
     < 100 \<and>
   producer (step (Blockcount 100)
       (run [Producer, Blockcount 1, Hashes [''00ab''], Blocks [blk 1 900000]] (init 0)))
     = P_getblockhash 11 \<and>
   last (rpc_calls (step (Blockcount 100)
       (run [Producer, Blockcount 1, Hashes [''00ab''], Blocks [blk 1 900000]] (init 0))))
     = Getblockhash [2..12]"
  using fetch_count_whole_limit
    [of "run [Producer, Blockcount 1, Hashes [''00ab''], Blocks [blk 1 900000]] (init 0)" 100]
  by (simp add: ops)

text \<open>
  While the block batch is in flight \<open>fetched_height\<close> still has the value it had before
  the round: here 100, with the hashes of heights 101 to 110 received and their blocks
  requested.
\<close>

theorem fetched_height_early_counterexample:
  "producer (run [Producer, Blockcount 150, Hashes (replicate 10 ''00ab'')] (init 100)) = P_getblock 10 \<and>
   rpc_calls (run [Producer, Blockcount 150, Hashes (replicate 10 ''00ab'')] (init 100))
     = [Getblockcount, Getblockhash [101..110], Getblock (replicate 10 ''00ab'')] \<and>
   fetched_height (run [Producer, Blockcount 150, Hashes (replicate 10 ''00ab'')] (init 100)) = 100 \<and>
   fetched_height (run [Producer, Blockcount 150, Hashes (replicate 10 ''00ab'')] (init 100)) \<noteq> 100 + 10"
  by (simp add: ops)

text \<open>
  C4, amended. \<open>fetched_height\<close> does not move when the hash batch resolves; it is advanced
  by \<open>count\<close> when the block batch resolves, and by no other event.
\<close>

theorem fetched_height_advance:
  "(producer s = P_getblockhash count \<longrightarrow>
      fetched_height (step (Hashes hs) s) = fetched_height s) \<and>
   (producer s = P_getblock count \<longrightarrow>
      fetched_height (step (Blocks bs) s) = fetched_height s + count) \<and>
   ((\<forall>bs'. e \<noteq> Blocks bs') \<longrightarrow> fetched_height (step e s) = fetched_height s)"
proof -
  have 1: "producer s = P_getblockhash count \<longrightarrow>
      fetched_height (step (Hashes hs) s) = fetched_height s"
    by (simp add: fields)
  have 2: "producer s = P_getblock count \<longrightarrow>
      fetched_height (step (Blocks bs) s) = fetched_height s + count"
    by (simp add: fields)
  have 3: "(\<forall>bs'. e \<noteq> Blocks bs') \<longrightarrow> fetched_height (step e s) = fetched_height s"
    by (cases e)
      (auto simp: fields on_signal_def process_cache_def drain_def
        split: producer_at.splits consumer_at.splits)
  from 1 2 3 show ?thesis by blast
qed

theorem fetched_height_advance_witness:
  "producer (run [Producer, Blockcount 150, Hashes (replicate 10 ''00ab'')] (init 100)) = P_getblock 10 \<and>
   fetched_height (run [Producer, Blockcount 150, Hashes (replicate 10 ''00ab'')] (init 100)) = 100 \<and>
   fetched_height (step (Blocks [])
       (run [Producer, Blockcount 150, Hashes (replicate 10 ''00ab'')] (init 100))) = 110 \<and>
   fetched_height (step Signal
       (run [Producer, Blockcount 150, Hashes (replicate 10 ''00ab'')] (init 100))) = 100"
  using fetched_height_advance
    [of "run [Producer, Blockcount 150, Hashes (replicate 10 ''00ab'')] (init 100)" 10 "[]" "[]" Signal]
  by (simp add: ops)

end
